theory Spec2Isabelle
  imports Main "HOL-Library.Sublist"
begin

section \<open>The durable store (storage.ts)\<close>

text \<open>
  The queue and the store never look inside an event, so the development is parametric in
  the event type \<open>'e\<close> (the \<open>zFormsEvent\<close> interface of types.ts is one instance).

  \<open>localStorage\<close> is the browser's storage, seen through the single key
  \<open>STORAGE_KEY\<close>: \<open>item\<close> is the array kept under that key (\<open>None\<close> when the key is
  absent), read back through \<open>JSON.parse\<close> of what \<open>JSON.stringify\<close> wrote. The platform
  decides two things the code only observes through exceptions: whether storage can be
  used at all (\<open>usable\<close>, what the write/remove probe finds out) and whether a write of a
  given array is taken (\<open>accepts\<close>, the quota). A primitive that throws returns \<open>None\<close>.
\<close>

record 'e localStorage =
  item :: "'e list option"
  usable :: bool
  accepts :: "'e list \<Rightarrow> bool"

definition getItem :: "'e localStorage \<Rightarrow> 'e list option option" where
  "getItem ls = (if usable ls then Some (item ls) else None)"

definition setItem :: "'e localStorage \<Rightarrow> 'e list \<Rightarrow> 'e localStorage option" where
  "setItem ls v = (if usable ls \<and> accepts ls v then Some (ls\<lparr>item := Some v\<rparr>) else None)"

definition removeItem :: "'e localStorage \<Rightarrow> 'e localStorage option" where
  "removeItem ls = (if usable ls then Some (ls\<lparr>item := None\<rparr>) else None)"

definition MAX_STORED_EVENTS :: nat where
  "MAX_STORED_EVENTS = 1000"

text \<open>\<open>xs.slice(-n)\<close> for a positive \<open>n\<close>: the last \<open>n\<close> elements, all of them when there are fewer.\<close>

definition slice_last :: "nat \<Rightarrow> 'a list \<Rightarrow> 'a list" where
  "slice_last n xs = drop (length xs - n) xs"

text \<open>The \<open>Storage\<close> object: its one field, and the storage it reads and writes.\<close>

record 'e Storage =
  isAvailable :: bool
  localStorage :: "'e localStorage"

definition checkStorageAvailability :: "'e localStorage \<Rightarrow> bool" where
  "checkStorageAvailability ls = usable ls"

definition Storage_new :: "'e localStorage \<Rightarrow> 'e Storage" where
  "Storage_new ls = \<lparr>isAvailable = checkStorageAvailability ls, localStorage = ls\<rparr>"

definition retrieve :: "'e Storage \<Rightarrow> 'e list" where
  "retrieve st =
     (if \<not> isAvailable st then []
      else case getItem (localStorage st) of
             None \<Rightarrow> []
           | Some None \<Rightarrow> []
           | Some (Some stored) \<Rightarrow> stored)"

definition store :: "'e Storage \<Rightarrow> 'e list \<Rightarrow> 'e Storage" where
  "store st events =
     (if \<not> isAvailable st \<or> events = [] then st
      else let existing = retrieve st;
               combined = slice_last MAX_STORED_EVENTS (existing @ events)
           in case setItem (localStorage st) combined of
                None \<Rightarrow> st
              | Some ls' \<Rightarrow> st\<lparr>localStorage := ls'\<rparr>)"

definition clear :: "'e Storage \<Rightarrow> 'e Storage" where
  "clear st =
     (if \<not> isAvailable st then st
      else case removeItem (localStorage st) of
             None \<Rightarrow> st
           | Some ls' \<Rightarrow> st\<lparr>localStorage := ls'\<rparr>)"

definition count :: "'e Storage \<Rightarrow> nat" where
  "count st = length (retrieve st)"

section \<open>The event queue (queue.ts)\<close>

record 'e EventBatch =
  project_key :: string
  events :: "'e list"

text \<open>What a \<open>fetch\<close> comes back with: a response carrying a status, or a rejection.\<close>

datatype response = Resolved nat | Rejected

definition ok :: "response \<Rightarrow> bool" where
  "ok r = (case r of Resolved status \<Rightarrow> 200 \<le> status \<and> status \<le> 299 | Rejected \<Rightarrow> False)"

text \<open>
  The fields of the \<open>EventQueue\<close> object, followed by what lies outside the object and is
  needed to say what it did: \<open>awaiting\<close> holds the local \<open>batch\<close> of every \<open>send\<close> call
  suspended at its \<open>await\<close>, oldest first; \<open>fetched\<close> the payloads handed to \<open>fetch\<close>;
  \<open>delivered\<close> the batches whose fetch came back with an ok response; \<open>beaconed\<close> the
  payloads \<open>navigator.sendBeacon\<close> accepted. \<open>batchSize\<close> is an integer (a fractional
  number is outside the model); \<open>sendTimer\<close> is the interval handle, which the platform
  never makes zero.
\<close>

record 'e EventQueue =
  queue :: "'e list"
  storage :: "'e Storage"
  apiUrl :: string
  projectKey :: string
  batchSize :: int
  batchInterval :: int
  sendTimer :: "nat option"
  isSending :: bool
  debug :: bool
  awaiting :: "'e list list"
  fetched :: "'e EventBatch list"
  delivered :: "'e list list"
  beaconed :: "'e EventBatch list"

text \<open>
  \<open>send\<close> is asynchronous. \<open>send_begin\<close> is the part that runs when it is called, up to
  the \<open>await\<close>: the guard, the flag, \<open>splice(0, batchSize)\<close> (a negative count removes
  nothing) and the request. \<open>send_settle\<close> is the part that runs when the oldest
  outstanding fetch comes back: the failure branch for a response that is not ok or a
  rejection, and the \<open>finally\<close> block.
\<close>

definition send_begin :: "'e EventQueue \<Rightarrow> 'e EventQueue" where
  "send_begin s =
     (if isSending s \<or> queue s = [] then s
      else let batch = take (nat (batchSize s)) (queue s);
               payload = \<lparr>project_key = projectKey s, events = batch\<rparr>
           in s\<lparr>isSending := True,
                queue := drop (nat (batchSize s)) (queue s),
                awaiting := awaiting s @ [batch],
                fetched := fetched s @ [payload]\<rparr>)"

definition send_settle :: "response \<Rightarrow> 'e EventQueue \<Rightarrow> 'e EventQueue" where
  "send_settle r s =
     (case awaiting s of
        [] \<Rightarrow> s
      | batch # others \<Rightarrow>
          if ok r
          then s\<lparr>awaiting := others, delivered := delivered s @ [batch], isSending := False\<rparr>
          else s\<lparr>awaiting := others,
                 storage := store (storage s) batch,
                 queue := batch @ queue s,
                 isSending := False\<rparr>)"

definition add :: "'e \<Rightarrow> 'e EventQueue \<Rightarrow> 'e EventQueue" where
  "add event s =
     (let s1 = s\<lparr>queue := queue s @ [event]\<rparr>
      in if int (length (queue s1)) \<ge> batchSize s1 then send_begin s1 else s1)"

definition loadStoredEvents :: "'e EventQueue \<Rightarrow> 'e EventQueue" where
  "loadStoredEvents s =
     (let stored = retrieve (storage s)
      in if length stored > 0
         then s\<lparr>queue := queue s @ stored, storage := clear (storage s)\<rparr>
         else s)"

definition startBatchTimer :: "nat \<Rightarrow> 'e EventQueue \<Rightarrow> 'e EventQueue" where
  "startBatchTimer handle s = s\<lparr>sendTimer := Some handle\<rparr>"

text \<open>The interval callback, which the platform runs only while the timer is armed.\<close>

definition timer_tick :: "'e EventQueue \<Rightarrow> 'e EventQueue" where
  "timer_tick s =
     (if sendTimer s = None then s
      else if length (queue s) > 0 then send_begin s else s)"

definition sendBeacon :: "bool \<Rightarrow> 'e EventQueue \<Rightarrow> 'e EventQueue" where
  "sendBeacon sent s =
     (if queue s = [] then s
      else let payload = \<lparr>project_key = projectKey s, events = queue s\<rparr>
           in if sent
              then s\<lparr>beaconed := beaconed s @ [payload], queue := []\<rparr>
              else s\<lparr>storage := store (storage s) (queue s)\<rparr>)"

definition flush :: "'e EventQueue \<Rightarrow> 'e EventQueue" where
  "flush s = (if length (queue s) > 0 then send_begin s else s)"

definition destroy :: "'e EventQueue \<Rightarrow> 'e EventQueue" where
  "destroy s =
     flush (case sendTimer s of
              Some handle \<Rightarrow> s\<lparr>sendTimer := None\<rparr>
            | None \<Rightarrow> s)"

text \<open>
  The constructor: the fields, a fresh \<open>Storage\<close> over the browser's storage, the load of
  what an earlier session persisted, and the timer (\<open>handle\<close> is what \<open>setInterval\<close>
  returns). \<open>setupUnloadHandler\<close> only registers the listeners; the signals are steps below.
\<close>

definition EventQueue_new ::
  "string \<Rightarrow> string \<Rightarrow> int \<Rightarrow> int \<Rightarrow> bool \<Rightarrow> 'e localStorage \<Rightarrow> nat \<Rightarrow> 'e EventQueue" where
  "EventQueue_new url pkey bsize interval dbg ls handle =
     startBatchTimer handle
       (loadStoredEvents
          \<lparr>queue = [], storage = Storage_new ls, apiUrl = url, projectKey = pkey,
           batchSize = bsize, batchInterval = interval, sendTimer = None,
           isSending = False, debug = dbg,
           awaiting = [], fetched = [], delivered = [], beaconed = []\<rparr>)"

section \<open>Runs of the event loop\<close>

text \<open>
  Everything runs on one event loop, so a run is a sequence of steps, each executed to
  completion: a producer's \<open>add\<close>, a timer tick, a \<open>flush\<close>, a \<open>destroy\<close>, a lifecycle
  signal (with the answer of \<open>navigator.sendBeacon\<close>), and the return of the oldest
  outstanding fetch.
\<close>

datatype 'e op = Add 'e | Tick | Flush | Destroy | Signal bool | Settle response

fun step :: "'e op \<Rightarrow> 'e EventQueue \<Rightarrow> 'e EventQueue" where
  "step (Add e) s = add e s"
| "step Tick s = timer_tick s"
| "step Flush s = flush s"
| "step Destroy s = destroy s"
| "step (Signal sent) s = sendBeacon sent s"
| "step (Settle r) s = send_settle r s"

fun run :: "'e op list \<Rightarrow> 'e EventQueue \<Rightarrow> 'e EventQueue" where
  "run [] s = s"
| "run (x # xs) s = run xs (step x s)"

text \<open>
  The events a run enqueues, in order.
\<close>

fun added :: "'e op list \<Rightarrow> 'e list" where
  "added [] = []"
| "added (Add e # xs) = e # added xs"
| "added (_ # xs) = added xs"

text \<open>
  What holds in every state the program reaches: the flag is set exactly while a fetch is
  outstanding, at most one is, and its batch is no longer than the batch size allows.
\<close>

definition in_flight_ok :: "'e EventQueue \<Rightarrow> bool" where
  "in_flight_ok s =
     ((isSending s = (awaiting s \<noteq> [])) \<and> length (awaiting s) \<le> 1 \<and>
      list_all (\<lambda>b. length b \<le> nat (batchSize s)) (awaiting s))"

section \<open>Properties of runs\<close>

text \<open>
  A step of a failure-free run: no fetch comes back failed, and no emergency send takes
  events out of the normal path.
\<close>

fun no_failure :: "'e op \<Rightarrow> bool" where
  "no_failure (Settle r) = ok r"
| "no_failure (Signal sent) = False"
| "no_failure _ = True"

text \<open>An emergency send that the platform accepted: the one step that takes events out of
  the queue past the send cycle.\<close>

fun emergency_sent :: "'e op \<Rightarrow> bool" where
  "emergency_sent (Signal sent) = sent"
| "emergency_sent _ = False"

text \<open>
  A step that can run while a fetch is outstanding without ending the wait or emptying
  the queue: anything but the return of the fetch and an accepted emergency send.
\<close>

fun waits :: "'e op \<Rightarrow> bool" where
  "waits (Settle r) = False"
| "waits (Signal sent) = (\<not> sent)"
| "waits _ = True"

text \<open>
  Every event the queue has taken charge of, in delivery order: what was delivered, then
  what is in flight, then what is still queued.
\<close>

definition all_sent :: "'e EventQueue \<Rightarrow> 'e list" where
  "all_sent s = concat (delivered s) @ concat (awaiting s) @ queue s"

text \<open>Every batch handed to \<open>fetch\<close> holds at least one and at most \<open>batchSize\<close> events.\<close>

definition batches_ok :: "'e EventQueue \<Rightarrow> bool" where
  "batches_ok s =
     list_all (\<lambda>b. 1 \<le> length b \<and> int (length b) \<le> batchSize s) (delivered s @ awaiting s)"




text \<open>
  The batches handed to \<open>fetch\<close> so far are all full, or, when no event is still to come
  (\<open>pending\<close> is false), all but the last are full and the queue is empty.
\<close>

definition tidy :: "bool \<Rightarrow> 'e EventQueue \<Rightarrow> bool" where
  "tidy pending s =
     (list_all (\<lambda>b. length b = nat (batchSize s)) (delivered s @ awaiting s) \<or>
      (\<not> pending \<and> queue s = [] \<and> delivered s @ awaiting s \<noteq> [] \<and>
       list_all (\<lambda>b. length b = nat (batchSize s)) (butlast (delivered s @ awaiting s)) \<and>
       1 \<le> length (last (delivered s @ awaiting s)) \<and>
       length (last (delivered s @ awaiting s)) \<le> nat (batchSize s)))"

text \<open>
  The batch \<open>b\<close> of a failed send is at the front of whatever goes out next: of the first
  batch delivered after the first \<open>n\<close>, once there is one; until then, of the batch in
  flight, or of the queue when nothing is in flight.
\<close>

definition retried_first :: "'e list \<Rightarrow> nat \<Rightarrow> 'e EventQueue \<Rightarrow> bool" where
  "retried_first b n s =
     (n \<le> length (delivered s) \<and>
      (case drop n (delivered s) of
         [] \<Rightarrow> prefix b (if awaiting s = [] then queue s else hd (awaiting s))
       | x # rest \<Rightarrow> prefix b x \<and> length x \<le> nat (batchSize s)))"

text \<open>
  A storage that works and is empty, and a queue just constructed over it with a given
  batch size: the states the concrete instances below start from.
\<close>

abbreviation working_store :: "nat localStorage" where
  "working_store \<equiv> \<lparr>item = None, usable = True, accepts = (\<lambda>v. True)\<rparr>"

abbreviation fresh_queue :: "int \<Rightarrow> nat EventQueue" where
  "fresh_queue B \<equiv>
     EventQueue_new ''https://zForms.xyz/api/zForms/events'' ''pk'' B 5000 False working_store 1"

lemmas storage_defs =
  getItem_def setItem_def removeItem_def MAX_STORED_EVENTS_def slice_last_def
  checkStorageAvailability_def Storage_new_def retrieve_def store_def clear_def

lemmas queue_defs =
  ok_def send_begin_def send_settle_def add_def loadStoredEvents_def startBatchTimer_def
  timer_tick_def sendBeacon_def flush_def destroy_def EventQueue_new_def Let_def

section \<open>The store keeps the newest events\<close>

lemma length_slice_last: "length (slice_last n xs) \<le> n"
  by (simp add: slice_last_def)

lemma slice_last_short: "length xs \<le> n \<Longrightarrow> slice_last n xs = xs"
  by (simp add: slice_last_def)

lemma suffix_slice_last: "suffix (slice_last n xs) xs"
  by (simp add: slice_last_def suffix_drop)

lemma slice_last_Nil_iff: "0 < n \<Longrightarrow> (slice_last n xs = []) = (xs = [])"
  by (cases xs) (auto simp: slice_last_def)

lemma retrieve_written:
  "isAvailable st \<Longrightarrow> setItem (localStorage st) v = Some ls' \<Longrightarrow>
   retrieve (st\<lparr>localStorage := ls'\<rparr>) = v"
  by (auto simp: retrieve_def setItem_def getItem_def split: if_splits)

lemma retrieve_store:
  assumes "isAvailable st" and "evs \<noteq> []"
    and "setItem (localStorage st) (slice_last MAX_STORED_EVENTS (retrieve st @ evs)) \<noteq> None"
  shows "retrieve (store st evs) = slice_last MAX_STORED_EVENTS (retrieve st @ evs)"
  using assms by (auto simp: store_def Let_def retrieve_written split: option.splits)

lemma store_Nil: "store st [] = st"
  by (simp add: store_def)

lemma store_unavailable: "\<not> isAvailable st \<Longrightarrow> store st evs = st"
  by (simp add: store_def)

lemma isAvailable_store: "isAvailable (store st evs) = isAvailable st"
  by (simp add: store_def Let_def split: option.splits)

text \<open>
  Claim C6. A \<open>store(events)\<close> on an available store whose write the platform takes leaves
  the last 1000 elements of the previously persisted sequence followed by the new events:
  so the store holds at most 1000 events, and what it holds is a suffix of old-then-new
  (the oldest events are the ones dropped). With no new events the call returns before it
  trims, which changes nothing for a store that was within the bound, as every store
  written by this code is.
\<close>

theorem store_keeps_last_MAX:
  assumes "isAvailable st"
    and "setItem (localStorage st) (slice_last MAX_STORED_EVENTS (retrieve st @ evs)) \<noteq> None"
    and "evs \<noteq> [] \<or> length (retrieve st) \<le> MAX_STORED_EVENTS"
  shows "retrieve (store st evs) = slice_last MAX_STORED_EVENTS (retrieve st @ evs) \<and>
         length (retrieve (store st evs)) \<le> MAX_STORED_EVENTS \<and>
         suffix (retrieve (store st evs)) (retrieve st @ evs) \<and>
         MAX_STORED_EVENTS = 1000"
proof -
  have eq: "retrieve (store st evs) = slice_last MAX_STORED_EVENTS (retrieve st @ evs)"
  proof (cases "evs = []")
    case True
    with assms(3) show ?thesis by (simp add: store_Nil slice_last_short)
  next
    case False
    with assms(1,2) show ?thesis by (simp add: retrieve_store)
  qed
  show ?thesis
    unfolding eq by (simp add: length_slice_last suffix_slice_last MAX_STORED_EVENTS_def)
qed

theorem store_keeps_last_MAX_witness:
  "retrieve (store \<lparr>isAvailable = True,
      localStorage = \<lparr>item = Some (replicate 1000 (0::nat)), usable = True, accepts = (\<lambda>v. True)\<rparr>\<rparr> [1, 2])
   = replicate 998 0 @ [1, 2]"
  using store_keeps_last_MAX [of "\<lparr>isAvailable = True,
      localStorage = \<lparr>item = Some (replicate 1000 (0::nat)), usable = True, accepts = (\<lambda>v. True)\<rparr>\<rparr>" "[1, 2]"]
  by (simp add: setItem_def retrieve_def getItem_def slice_last_def MAX_STORED_EVENTS_def)

section \<open>One send in flight\<close>

lemma send_begin_noop: "isSending s \<or> queue s = [] \<Longrightarrow> send_begin s = s"
  by (simp add: send_begin_def)

lemma in_flight_ok_send_begin: "in_flight_ok s \<Longrightarrow> in_flight_ok (send_begin s)"
  by (auto simp: in_flight_ok_def send_begin_def Let_def)

lemma in_flight_ok_send_settle: "in_flight_ok s \<Longrightarrow> in_flight_ok (send_settle r s)"
  by (auto simp: in_flight_ok_def send_settle_def split: list.splits)

lemma in_flight_ok_queue_update [simp]: "in_flight_ok (s\<lparr>queue := q\<rparr>) = in_flight_ok s"
  by (simp add: in_flight_ok_def)

lemma in_flight_ok_storage_update [simp]: "in_flight_ok (s\<lparr>storage := q\<rparr>) = in_flight_ok s"
  by (simp add: in_flight_ok_def)

lemma in_flight_ok_sendTimer_update [simp]: "in_flight_ok (s\<lparr>sendTimer := q\<rparr>) = in_flight_ok s"
  by (simp add: in_flight_ok_def)

lemma in_flight_ok_beaconed_update [simp]: "in_flight_ok (s\<lparr>beaconed := q\<rparr>) = in_flight_ok s"
  by (simp add: in_flight_ok_def)

lemma in_flight_ok_step: "in_flight_ok s \<Longrightarrow> in_flight_ok (step x s)"
  by (cases x)
     (auto simp: add_def timer_tick_def flush_def destroy_def sendBeacon_def Let_def
                 in_flight_ok_send_begin in_flight_ok_send_settle split: option.splits)

lemma in_flight_ok_run: "in_flight_ok s \<Longrightarrow> in_flight_ok (run xs s)"
  by (induction xs arbitrary: s) (simp_all add: in_flight_ok_step)

lemma in_flight_ok_new: "in_flight_ok (EventQueue_new url pkey bsize interval dbg ls h)"
  by (simp add: EventQueue_new_def startBatchTimer_def loadStoredEvents_def Let_def in_flight_ok_def)

lemma settle_clears_flag:
  "in_flight_ok s \<Longrightarrow> \<not> isSending (send_settle r s) \<and> awaiting (send_settle r s) = []"
  by (cases "awaiting s") (auto simp: in_flight_ok_def send_settle_def)

lemma step_in_flight:
  assumes "isSending s" and "waits x"
  shows "isSending (step x s) \<and> queue (step x s) = queue s @ added [x] \<and>
         awaiting (step x s) = awaiting s \<and> fetched (step x s) = fetched s \<and>
         delivered (step x s) = delivered s \<and> beaconed (step x s) = beaconed s"
  using assms
  by (cases x)
     (auto simp: add_def timer_tick_def flush_def destroy_def sendBeacon_def send_begin_def
        Let_def split: option.splits)

lemma added_append: "added (xs @ ys) = added xs @ added ys"
  by (induction xs rule: added.induct) simp_all

lemma run_in_flight:
  assumes "isSending s" and "list_all waits xs"
  shows "isSending (run xs s) \<and> queue (run xs s) = queue s @ added xs \<and>
         awaiting (run xs s) = awaiting s \<and> fetched (run xs s) = fetched s \<and>
         delivered (run xs s) = delivered s \<and> beaconed (run xs s) = beaconed s"
  using assms
proof (induction xs arbitrary: s)
  case Nil
  then show ?case by simp
next
  case (Cons x xs)
  then have x: "waits x" and xs: "list_all waits xs" by simp_all
  note one = step_in_flight [OF Cons.prems(1) x]
  from Cons.IH [of "step x s"] one xs
  show ?case
    using added_append [of "[x]" xs] by simp
qed

text \<open>
  Claim C2. A \<open>send\<close> called while the flag is set, or on an empty queue, changes nothing
  at all (queue, store and requests included). In every state \<open>s\<close> that a constructed
  queue reaches by any run, at most one fetch is outstanding, the flag is set exactly
  while one is, and when that fetch comes back, with whatever result \<open>r\<close>, the flag is
  cleared. While a fetch is outstanding, no run of other steps (enqueues past the batch
  size, ticks, flushes, rejected emergency sends) issues a request.
\<close>

theorem at_most_one_send_in_flight:
  assumes "s = run xs (EventQueue_new url pkey bsize interval dbg ls h)"
  shows "(isSending t \<or> queue t = [] \<longrightarrow> send_begin t = t) \<and>
         length (awaiting s) \<le> 1 \<and>
         isSending s = (awaiting s \<noteq> []) \<and>
         (isSending s \<and> list_all waits ys \<longrightarrow>
            fetched (run ys s) = fetched s \<and> awaiting (run ys s) = awaiting s) \<and>
         \<not> isSending (send_settle r s) \<and> awaiting (send_settle r s) = []"
proof -
  have inv: "in_flight_ok s"
    unfolding assms by (intro in_flight_ok_run in_flight_ok_new)
  have quiet: "fetched (run ys s) = fetched s \<and> awaiting (run ys s) = awaiting s"
    if "isSending s" "list_all waits ys"
    using run_in_flight [OF that] by simp
  show ?thesis
    using inv quiet settle_clears_flag [OF inv, of r]
    by (simp add: send_begin_noop in_flight_ok_def)
qed

theorem at_most_one_send_in_flight_witness:
  "send_begin (run [Add 1, Add 2, Add 3] (fresh_queue 2)) = run [Add 1, Add 2, Add 3] (fresh_queue 2) \<and>
   awaiting (run [Add 1, Add 2, Add 3] (fresh_queue 2)) = [[1, 2]] \<and>
   isSending (run [Add 1, Add 2, Add 3] (fresh_queue 2)) \<and>
   fetched (run [Add 1, Add 2, Add 3, Add 4, Add 5, Tick, Flush] (fresh_queue 2)) =
     [\<lparr>project_key = ''pk'', events = [1, 2]\<rparr>] \<and>
   \<not> isSending (send_settle Rejected (run [Add 1, Add 2, Add 3] (fresh_queue 2)))"
  using at_most_one_send_in_flight
    [of "run [Add 1, Add 2, Add 3] (fresh_queue 2)" "[Add 1, Add 2, Add 3]"
        "''https://zForms.xyz/api/zForms/events''" "''pk''" 2 5000 False working_store 1
        "run [Add 1, Add 2, Add 3] (fresh_queue 2)" "[Add 4, Add 5, Tick, Flush]" Rejected]
  by (simp add: queue_defs storage_defs)

section \<open>Emergency delivery\<close>

text \<open>
  Claim C7. An accepted emergency send empties the queue; an emergency send on an empty
  queue changes nothing and transmits nothing; so a second signal right after an accepted
  one, whatever the platform would answer, leaves the state as the first left it, and the
  two signals together hand the platform exactly one payload, the queue's content.
\<close>

theorem sendBeacon_idempotent:
  "queue (sendBeacon True s) = [] \<and>
   (queue s = [] \<longrightarrow> sendBeacon sent s = s) \<and>
   sendBeacon sent (sendBeacon True s) = sendBeacon True s \<and>
   (queue s \<noteq> [] \<longrightarrow>
      beaconed (sendBeacon sent (sendBeacon True s)) =
        beaconed s @ [\<lparr>project_key = projectKey s, events = queue s\<rparr>])"
  by (simp add: sendBeacon_def Let_def)

theorem sendBeacon_idempotent_witness:
  "beaconed (run [Add 1, Add 2, Signal True, Signal True] (fresh_queue 10)) =
     [\<lparr>project_key = ''pk'', events = [1, 2]\<rparr>] \<and>
   queue (run [Add 1, Add 2, Signal True] (fresh_queue 10)) = []"
  using sendBeacon_idempotent [of "run [Add 1, Add 2] (fresh_queue 10)" True]
  by (simp add: queue_defs storage_defs)

text \<open>
  Claim C8. When the platform rejects an emergency submission of a non-empty queue, nothing
  is transmitted and the whole queue is handed to the store in the same step: on an
  available store whose write is taken, the store then holds the last 1000 of what it held
  followed by the queue. On an unavailable store, or when the platform refuses the write, the
  step changes nothing, and there is no error: the batch is kept nowhere but in memory.
\<close>

theorem sendBeacon_rejected_stores_queue:
  assumes "queue s \<noteq> []"
  shows "beaconed (sendBeacon False s) = beaconed s \<and>
         fetched (sendBeacon False s) = fetched s \<and>
         (isAvailable (storage s) \<and>
          setItem (localStorage (storage s))
            (slice_last MAX_STORED_EVENTS (retrieve (storage s) @ queue s)) \<noteq> None \<longrightarrow>
            retrieve (storage (sendBeacon False s)) =
              slice_last MAX_STORED_EVENTS (retrieve (storage s) @ queue s)) \<and>
         (\<not> isAvailable (storage s) \<or>
          setItem (localStorage (storage s))
            (slice_last MAX_STORED_EVENTS (retrieve (storage s) @ queue s)) = None \<longrightarrow>
            sendBeacon False s = s)"
  using assms by (auto simp: sendBeacon_def Let_def store_def retrieve_written)

theorem sendBeacon_rejected_stores_queue_witness:
  "queue (run [Add 1, Add 2] (fresh_queue 10)) \<noteq> [] \<and>
   retrieve (storage (run [Add 1, Add 2, Signal False] (fresh_queue 10))) = [1, 2] \<and>
   beaconed (run [Add 1, Add 2, Signal False] (fresh_queue 10)) = []"
  using sendBeacon_rejected_stores_queue [of "run [Add 1, Add 2] (fresh_queue 10)"]
  by (simp add: queue_defs storage_defs)

section \<open>Flush\<close>

text \<open>
  Claim C10. A \<open>flush\<close> starts at most one send cycle: none when one is in flight or the
  queue is empty, else exactly one request, carrying the first \<open>batchSize\<close> events of the
  queue and no more. The events beyond them stay in the queue, in order: they are the
  queue after the flush, and when the cycle completes the queue is those events
  (success) or the whole former queue (failure, the batch put back in front), followed
  by whatever was enqueued while the fetch was outstanding; no further request was
  issued meanwhile.
\<close>

theorem flush_takes_one_batch:
  "(isSending s \<or> queue s = [] \<longrightarrow> flush s = s) \<and>
   (in_flight_ok s \<and> \<not> isSending s \<and> queue s \<noteq> [] \<and> 0 \<le> batchSize s \<and>
    list_all waits ys \<longrightarrow>
      fetched (flush s) =
        fetched s @ [\<lparr>project_key = projectKey s, events = take (nat (batchSize s)) (queue s)\<rparr>] \<and>
      int (length (take (nat (batchSize s)) (queue s))) \<le> batchSize s \<and>
      queue (flush s) = drop (nat (batchSize s)) (queue s) \<and>
      fetched (send_settle r (run ys (flush s))) = fetched (flush s) \<and>
      queue (send_settle r (run ys (flush s))) =
        (if ok r then drop (nat (batchSize s)) (queue s) @ added ys else queue s @ added ys))"
proof -
  have noop: "flush s = s" if "isSending s \<or> queue s = []"
    using that by (auto simp: flush_def send_begin_def)
  have cycle:
    "fetched (flush s) =
       fetched s @ [\<lparr>project_key = projectKey s, events = take (nat (batchSize s)) (queue s)\<rparr>] \<and>
     int (length (take (nat (batchSize s)) (queue s))) \<le> batchSize s \<and>
     queue (flush s) = drop (nat (batchSize s)) (queue s) \<and>
     fetched (send_settle r (run ys (flush s))) = fetched (flush s) \<and>
     queue (send_settle r (run ys (flush s))) =
       (if ok r then drop (nat (batchSize s)) (queue s) @ added ys else queue s @ added ys)"
    if inv: "in_flight_ok s" and idle: "\<not> isSending s" "queue s \<noteq> []"
      and size: "0 \<le> batchSize s" and ys: "list_all waits ys"
  proof -
    have none: "awaiting s = []" using inv idle(1) by (simp add: in_flight_ok_def)
    have started: "isSending (flush s)" "awaiting (flush s) = [take (nat (batchSize s)) (queue s)]"
      "queue (flush s) = drop (nat (batchSize s)) (queue s)"
      "fetched (flush s) =
         fetched s @ [\<lparr>project_key = projectKey s, events = take (nat (batchSize s)) (queue s)\<rparr>]"
      using idle none by (simp_all add: flush_def send_begin_def Let_def)
    note during = run_in_flight [OF started(1) ys]
    have "fetched (send_settle r (run ys (flush s))) = fetched (flush s)"
      using during by (simp add: send_settle_def split: list.splits)
    moreover have "queue (send_settle r (run ys (flush s))) =
        (if ok r then drop (nat (batchSize s)) (queue s) @ added ys else queue s @ added ys)"
      using during started(2,3) by (simp add: send_settle_def)
    ultimately show ?thesis
      using started(3,4) size by simp
  qed
  show ?thesis
    by (rule conjI, intro impI, rule noop, assumption, intro impI, elim conjE, rule cycle)
qed

theorem flush_takes_one_batch_witness:
  "fetched (run [Add 1, Add 2, Add 3, Settle (Resolved 200), Flush] (fresh_queue 2)) =
     [\<lparr>project_key = ''pk'', events = [1, 2]\<rparr>, \<lparr>project_key = ''pk'', events = [3]\<rparr>] \<and>
   queue (run [Add 1, Add 2, Add 3, Settle (Resolved 500), Flush] (fresh_queue 2)) = [3] \<and>
   queue (run [Add 1, Add 2, Add 3, Settle (Resolved 500), Flush, Add 4, Settle (Resolved 200)]
     (fresh_queue 2)) = [3, 4]"
  using flush_takes_one_batch [of "run [Add 1, Add 2, Add 3, Settle (Resolved 500)] (fresh_queue 2)"
      "[Add 4]" "Resolved 200"]
  by (simp add: queue_defs storage_defs in_flight_ok_def)

section \<open>Failure-free runs\<close>

lemma all_sent_send_begin: "all_sent (send_begin s) = all_sent s"
  by (simp add: all_sent_def send_begin_def Let_def)

lemma all_sent_send_settle: "ok r \<Longrightarrow> all_sent (send_settle r s) = all_sent s"
  by (simp add: all_sent_def send_settle_def split: list.splits)

lemma all_sent_step: "no_failure x \<Longrightarrow> all_sent (step x s) = all_sent s @ added [x]"
  by (cases x)
     (auto simp: add_def timer_tick_def flush_def destroy_def Let_def all_sent_send_begin
        all_sent_send_settle split: option.splits, auto simp: all_sent_def)

lemma added_Cons: "added (x # xs) = added [x] @ added xs"
  by (cases x) simp_all

lemma all_sent_run: "list_all no_failure xs \<Longrightarrow> all_sent (run xs s) = all_sent s @ added xs"
proof (induction xs arbitrary: s)
  case Nil
  show ?case by simp
next
  case (Cons x xs)
  then have "all_sent (run (x # xs) s) = (all_sent s @ added [x]) @ added xs"
    by (simp add: all_sent_step)
  then show ?case
    using added_Cons [of x xs] by simp
qed

lemma batchSize_send_begin [simp]: "batchSize (send_begin s) = batchSize s"
  by (simp add: send_begin_def Let_def)

lemma batchSize_send_settle [simp]: "batchSize (send_settle r s) = batchSize s"
  by (simp add: send_settle_def split: list.splits)

lemma batchSize_step [simp]: "batchSize (step x s) = batchSize s"
  by (cases x)
     (simp_all add: add_def timer_tick_def flush_def destroy_def sendBeacon_def Let_def
        split: option.splits)

lemma batchSize_run [simp]: "batchSize (run xs s) = batchSize s"
  by (induction xs arbitrary: s) simp_all

lemma batches_ok_updates [simp]:
  "batches_ok (s\<lparr>queue := q\<rparr>) = batches_ok s"
  "batches_ok (s\<lparr>storage := st\<rparr>) = batches_ok s"
  "batches_ok (s\<lparr>sendTimer := t\<rparr>) = batches_ok s"
  "batches_ok (s\<lparr>beaconed := bs\<rparr>) = batches_ok s"
  by (simp_all add: batches_ok_def)









lemma batchSize_add [simp]: "batchSize (add e s) = batchSize s"
  using batchSize_step [of "Add e" s] by simp


lemma tidy_updates [simp]:
  "tidy pending (s\<lparr>sendTimer := t\<rparr>) = tidy pending s"
  by (simp add: tidy_def)
















section \<open>Retry after a failed send\<close>

lemma prefix_take: "prefix b q \<Longrightarrow> length b \<le> k \<Longrightarrow> prefix b (take k q)"
  by (auto simp: prefix_def)

lemma retried_first_updates [simp]:
  "retried_first b n (s\<lparr>storage := st\<rparr>) = retried_first b n s"
  "retried_first b n (s\<lparr>sendTimer := t\<rparr>) = retried_first b n s"
  by (simp_all add: retried_first_def split: list.splits)

lemma retried_first_push:
  "retried_first b n s \<Longrightarrow> retried_first b n (s\<lparr>queue := queue s @ [e]\<rparr>)"
  by (auto simp: retried_first_def split: list.splits)

lemma retried_first_send_begin:
  assumes "in_flight_ok s" and "length b \<le> nat (batchSize s)" and "retried_first b n s"
  shows "retried_first b n (send_begin s)"
proof (cases "isSending s \<or> queue s = []")
  case True
  with assms(3) show ?thesis by (simp add: send_begin_noop)
next
  case False
  with assms(1) have "awaiting s = []" by (simp add: in_flight_ok_def)
  with False assms(2,3) show ?thesis
    by (auto simp: retried_first_def send_begin_def Let_def prefix_take split: list.splits)
qed

lemma retried_first_send_settle:
  assumes "in_flight_ok s" and "retried_first b n s"
  shows "retried_first b n (send_settle r s)"
proof (cases "awaiting s")
  case Nil
  with assms(2) show ?thesis by (simp add: send_settle_def)
next
  case (Cons x others)
  with assms(1) have one: "others = []" and len: "length x \<le> nat (batchSize s)"
    by (simp_all add: in_flight_ok_def)
  show ?thesis
  proof (cases "drop n (delivered s)")
    case Nil
    with assms(2) Cons have n: "n = length (delivered s)" and p: "prefix b x"
      by (simp_all add: retried_first_def)
    show ?thesis
      using Cons one len n p by (simp add: retried_first_def send_settle_def)
  next
    case (Cons y ys)
    with assms(2) \<open>awaiting s = x # others\<close> show ?thesis
      by (auto simp: retried_first_def send_settle_def)
  qed
qed

lemma retried_first_step:
  assumes "in_flight_ok s" and "length b \<le> nat (batchSize s)" and "\<not> emergency_sent x"
    and "retried_first b n s"
  shows "retried_first b n (step x s)"
proof (cases x)
  case (Add e)
  have "in_flight_ok (s\<lparr>queue := queue s @ [e]\<rparr>)" using assms(1) by simp
  then have "retried_first b n (send_begin (s\<lparr>queue := queue s @ [e]\<rparr>))"
    using assms(2,4) by (intro retried_first_send_begin retried_first_push) simp_all
  then show ?thesis
    using Add assms(4) by (simp add: add_def Let_def retried_first_push)
next
  case Tick
  then show ?thesis
    using assms by (simp add: timer_tick_def retried_first_send_begin)
next
  case Flush
  then show ?thesis
    using assms by (simp add: flush_def retried_first_send_begin)
next
  case Destroy
  then show ?thesis
    using assms
    by (auto simp: destroy_def flush_def intro!: retried_first_send_begin split: option.splits)
next
  case (Signal sent)
  then show ?thesis
    using assms by (simp add: sendBeacon_def Let_def)
next
  case (Settle r)
  then show ?thesis
    using assms by (simp add: retried_first_send_settle)
qed

lemma retried_first_run:
  assumes "in_flight_ok s" and "length b \<le> nat (batchSize s)"
    and "list_all (\<lambda>x. \<not> emergency_sent x) xs" and "retried_first b n s"
  shows "retried_first b n (run xs s)"
  using assms
proof (induction xs arbitrary: s)
  case Nil
  then show ?case by simp
next
  case (Cons x xs)
  show ?case
    using Cons.prems
    by (auto intro!: Cons.IH in_flight_ok_step retried_first_step)
qed

lemma delivered_step: "prefix (delivered s) (delivered (step x s))"
  by (cases x)
     (auto simp: add_def timer_tick_def flush_def destroy_def sendBeacon_def send_begin_def
        send_settle_def Let_def split: option.splits list.splits)

lemma delivered_run: "prefix (delivered s) (delivered (run xs s))"
proof (induction xs arbitrary: s)
  case Nil
  show ?case by simp
next
  case (Cons x xs)
  have "prefix (delivered s) (delivered (step x s))" by (rule delivered_step)
  also have "prefix (delivered (step x s)) (delivered (run xs (step x s)))" by (rule Cons.IH)
  finally show ?case by simp
qed

text \<open>
  Claim C1, as amended. A send that starts takes the first \<open>batchSize\<close> events of the queue
  as its batch. Let a fetch carrying the batch \<open>b\<close> be outstanding and come back failed (a
  response that is not ok, or a rejection). Then \<open>b\<close> is handed to the store (which, when
  available and written, holds the last 1000 of what it held followed by \<open>b\<close>), \<open>b\<close> is put
  back in front of the queue in its order, and the flag is cleared. In every run that
  follows, as long as no emergency send is accepted, the first batch delivered after the
  failure starts with the events of \<open>b\<close> in order, so they precede every event enqueued
  later, and it is \<open>b\<close> itself when \<open>b\<close> was a full batch; until that delivery, \<open>b\<close> heads
  the batch in flight or the queue.
\<close>

theorem failed_batch_requeued_first:
  assumes "in_flight_ok t" and "awaiting t = [b]" and "\<not> ok r"
    and "list_all (\<lambda>x. \<not> emergency_sent x) xs"
  shows "(in_flight_ok s \<and> \<not> isSending s \<and> queue s \<noteq> [] \<longrightarrow>
            awaiting (send_begin s) = [take (nat (batchSize s)) (queue s)]) \<and>
         queue (send_settle r t) = b @ queue t \<and>
         \<not> isSending (send_settle r t) \<and>
         storage (send_settle r t) = store (storage t) b \<and>
         (b \<noteq> [] \<and> isAvailable (storage t) \<and>
          setItem (localStorage (storage t))
            (slice_last MAX_STORED_EVENTS (retrieve (storage t) @ b)) \<noteq> None \<longrightarrow>
            retrieve (storage (send_settle r t)) =
              slice_last MAX_STORED_EVENTS (retrieve (storage t) @ b)) \<and>
         prefix (delivered t) (delivered (run xs (send_settle r t))) \<and>
         (case drop (length (delivered t)) (delivered (run xs (send_settle r t))) of
            [] \<Rightarrow> prefix b (if awaiting (run xs (send_settle r t)) = []
                             then queue (run xs (send_settle r t))
                             else hd (awaiting (run xs (send_settle r t))))
          | x # rest \<Rightarrow> prefix b x \<and> (length b = nat (batchSize t) \<longrightarrow> x = b))"
proof -
  let ?s = "send_settle r t"
  have settle: "queue ?s = b @ queue t" "\<not> isSending ?s" "storage ?s = store (storage t) b"
    "delivered ?s = delivered t" "awaiting ?s = []" "batchSize ?s = batchSize t"
    using assms(2,3) by (simp_all add: send_settle_def)
  have len: "length b \<le> nat (batchSize t)"
    using assms(1,2) by (simp add: in_flight_ok_def)
  have inv: "in_flight_ok ?s"
    using assms(1) by (rule in_flight_ok_send_settle)
  have start: "retried_first b (length (delivered t)) ?s"
    by (simp add: retried_first_def settle)
  have "retried_first b (length (delivered t)) (run xs ?s)"
    using inv _ assms(4) start by (rule retried_first_run) (simp add: settle len)
  then have later:
    "case drop (length (delivered t)) (delivered (run xs ?s)) of
       [] \<Rightarrow> prefix b (if awaiting (run xs ?s) = [] then queue (run xs ?s)
                        else hd (awaiting (run xs ?s)))
     | x # rest \<Rightarrow> prefix b x \<and> (length b = nat (batchSize t) \<longrightarrow> x = b)"
    by (auto simp: retried_first_def settle prefix_def split: list.splits)
  have mono: "prefix (delivered t) (delivered (run xs ?s))"
    using delivered_run [of ?s xs] by (simp add: settle)
  have started: "awaiting (send_begin s) = [take (nat (batchSize s)) (queue s)]"
    if "in_flight_ok s" "\<not> isSending s" "queue s \<noteq> []"
    using that by (simp add: in_flight_ok_def send_begin_def Let_def)
  show ?thesis
    using started settle(1-3) later mono by (simp add: retrieve_store)
qed

theorem failed_batch_requeued_first_witness:
  "awaiting (run [Add 1, Add 2, Add 3] (fresh_queue 2)) = [[1, 2]] \<and>
   queue (run [Add 1, Add 2, Add 3, Settle (Resolved 500)] (fresh_queue 2)) = [1, 2, 3] \<and>
   retrieve (storage (run [Add 1, Add 2, Add 3, Settle (Resolved 500)] (fresh_queue 2))) = [1, 2] \<and>
   delivered (run [Add 1, Add 2, Add 3, Settle (Resolved 500), Add 4, Tick, Settle (Resolved 200)]
     (fresh_queue 2)) = [[1, 2]]"
  using failed_batch_requeued_first [of "run [Add 1, Add 2, Add 3] (fresh_queue 2)" "[1, 2]"
      "Resolved 500" "[Add 4, Tick, Settle (Resolved 200)]" "run [Add 1] (fresh_queue 2)"]
  by (simp add: queue_defs storage_defs in_flight_ok_def)

text \<open>
  Claim C1 as stated fails for a batch that was not full. With a batch size of 10, the
  timer sends the single queued event 1 and the fetch fails; event 2 is enqueued after
  the failure; the next cycle, which succeeds, delivers the batch \<open>[1, 2]\<close>, not the failed
  batch \<open>[1]\<close> alone. And when an emergency send is accepted between the failure and the
  next cycle, the failed batch leaves through the beacon and the next successful cycle
  delivers only the later event.
\<close>

theorem retried_batch_grows_counterexample:
  "awaiting (run [Add 1, Tick] (fresh_queue 10)) = [[1]] \<and>
   queue (run [Add 1, Tick, Settle (Resolved 500)] (fresh_queue 10)) = [1] \<and>
   delivered (run [Add 1, Tick, Settle (Resolved 500), Add 2, Tick, Settle (Resolved 200)]
     (fresh_queue 10)) = [[1, 2]] \<and>
   delivered (run [Add 1, Tick, Settle (Resolved 500), Signal True, Add 2, Tick,
     Settle (Resolved 200)] (fresh_queue 10)) = [[2]] \<and>
   beaconed (run [Add 1, Tick, Settle (Resolved 500), Signal True, Add 2, Tick,
     Settle (Resolved 200)] (fresh_queue 10)) = [\<lparr>project_key = ''pk'', events = [1]\<rparr>]"
  by (simp add: queue_defs storage_defs)

section \<open>Load at construction\<close>

lemma queue_new: "queue (EventQueue_new url pkey bsize interval dbg ls h) = retrieve (Storage_new ls)"
  by (simp add: EventQueue_new_def loadStoredEvents_def startBatchTimer_def Let_def)

lemma retrieve_clear: "retrieve (clear st) = []"
  by (auto simp: retrieve_def clear_def removeItem_def getItem_def split: option.splits)

lemma storage_new:
  "retrieve (storage (EventQueue_new url pkey bsize interval dbg ls h)) = []"
  by (simp add: EventQueue_new_def loadStoredEvents_def startBatchTimer_def Let_def retrieve_clear)

lemma new_rest:
  "delivered (EventQueue_new url pkey bsize interval dbg ls h) = [] \<and>
   awaiting (EventQueue_new url pkey bsize interval dbg ls h) = [] \<and>
   fetched (EventQueue_new url pkey bsize interval dbg ls h) = [] \<and>
   beaconed (EventQueue_new url pkey bsize interval dbg ls h) = []"
  by (simp add: EventQueue_new_def loadStoredEvents_def startBatchTimer_def Let_def)

text \<open>
  Claim C5. Constructing a queue over a usable storage that holds the events \<open>evs\<close> puts
  exactly \<open>evs\<close>, in their order, in the queue, and leaves the store empty (the key is
  removed when there was anything to load). The live events of any failure-free run come
  after them: delivered, in flight and queued events together are \<open>evs\<close> followed by the
  enqueued events. No bound on the number of events is needed.
\<close>

theorem new_queue_loads_persisted_events:
  assumes "usable ls" and "item ls = Some evs"
    and "s0 = EventQueue_new url pkey bsize interval dbg ls h"
    and "list_all no_failure xs"
  shows "queue s0 = evs \<and>
         retrieve (storage s0) = [] \<and>
         (evs \<noteq> [] \<longrightarrow> item (localStorage (storage s0)) = None) \<and>
         concat (delivered (run xs s0)) @ concat (awaiting (run xs s0)) @ queue (run xs s0)
           = evs @ added xs"
proof -
  have q: "queue s0 = evs"
    using assms(1,2) unfolding assms(3) queue_new
    by (simp add: retrieve_def Storage_new_def checkStorageAvailability_def getItem_def)
  have empty: "retrieve (storage s0) = []"
    unfolding assms(3) by (rule storage_new)
  have removed: "item (localStorage (storage s0)) = None" if "evs \<noteq> []"
    using assms(1,2) that unfolding assms(3)
    by (simp add: EventQueue_new_def loadStoredEvents_def startBatchTimer_def Let_def
        retrieve_def Storage_new_def checkStorageAvailability_def getItem_def clear_def
        removeItem_def)
  have "all_sent (run xs s0) = all_sent s0 @ added xs"
    using assms(4) by (rule all_sent_run)
  moreover have "all_sent s0 = evs"
    using q new_rest [of url pkey bsize interval dbg ls h] by (simp add: all_sent_def assms(3))
  ultimately show ?thesis
    using q empty removed by (simp add: all_sent_def)
qed

theorem new_queue_loads_persisted_events_witness:
  "queue (EventQueue_new ''u'' ''pk'' 2 5000 False
      \<lparr>item = Some [7, 8, 9::nat], usable = True, accepts = (\<lambda>v. True)\<rparr> 1) = [7, 8, 9] \<and>
   item (localStorage (storage (EventQueue_new ''u'' ''pk'' 2 5000 False
      \<lparr>item = Some [7, 8, 9::nat], usable = True, accepts = (\<lambda>v. True)\<rparr> 1))) = None \<and>
   fetched (run [Add 1, Settle (Resolved 200), Tick] (EventQueue_new ''u'' ''pk'' 2 5000 False
      \<lparr>item = Some [7, 8, 9::nat], usable = True, accepts = (\<lambda>v. True)\<rparr> 1)) =
     [\<lparr>project_key = ''pk'', events = [7, 8]\<rparr>, \<lparr>project_key = ''pk'', events = [9, 1]\<rparr>]"
  using new_queue_loads_persisted_events [of "\<lparr>item = Some [7, 8, 9::nat], usable = True, accepts = (\<lambda>v. True)\<rparr>"
      "[7, 8, 9]" _ "''u''" "''pk''" 2 5000 False 1 "[Add 1, Settle (Resolved 200), Tick]"]
  by (simp add: queue_defs storage_defs)

section \<open>What stays persisted\<close>

lemma retrieve_store_nonempty: "retrieve st \<noteq> [] \<Longrightarrow> retrieve (store st evs) \<noteq> []"
  by (auto simp: store_def Let_def retrieve_written slice_last_Nil_iff MAX_STORED_EVENTS_def
      split: option.splits)

lemma storage_send_begin [simp]: "storage (send_begin s) = storage s"
  by (simp add: send_begin_def Let_def)

lemma storage_step_nonempty:
  "retrieve (storage s) \<noteq> [] \<Longrightarrow> retrieve (storage (step x s)) \<noteq> []"
  by (cases x)
     (auto simp: add_def timer_tick_def flush_def destroy_def sendBeacon_def send_settle_def
        Let_def retrieve_store_nonempty split: option.splits list.splits)

lemma retrieve_Storage_new:
  "isAvailable st \<Longrightarrow> usable (localStorage st) \<Longrightarrow>
   retrieve (Storage_new (localStorage st)) = retrieve st"
  by (simp add: retrieve_def Storage_new_def checkStorageAvailability_def)

lemma usable_store: "usable (localStorage (store st evs)) = usable (localStorage st)"
  by (auto simp: store_def Let_def setItem_def split: option.splits if_splits)

text \<open>
  Claim C9. A send that succeeds leaves the store as it was, as does starting a send, and
  no step of a run empties a store that holds something: only the load at construction
  clears it. So when a batch fails once (and is persisted into an empty store) and is then
  delivered on the retry, it is still persisted, and the next queue constructed over the
  same storage starts with that batch in its queue, to be sent again.
\<close>

theorem delivered_events_stay_persisted:
  "(ok r \<longrightarrow> storage (send_settle r s) = storage s) \<and>
   storage (send_begin s) = storage s \<and>
   (retrieve (storage s) \<noteq> [] \<longrightarrow> retrieve (storage (step x s)) \<noteq> []) \<and>
   (in_flight_ok s \<and> \<not> isSending s \<and> queue s \<noteq> [] \<and>
    1 \<le> batchSize s \<and> nat (batchSize s) \<le> MAX_STORED_EVENTS \<and>
    isAvailable (storage s) \<and> retrieve (storage s) = [] \<and>
    setItem (localStorage (storage s)) (take (nat (batchSize s)) (queue s)) \<noteq> None \<and>
    \<not> ok r1 \<and> ok r2 \<longrightarrow>
      delivered (send_settle r2 (send_begin (send_settle r1 (send_begin s)))) =
        delivered s @ [take (nat (batchSize s)) (queue s)] \<and>
      retrieve (storage (send_settle r2 (send_begin (send_settle r1 (send_begin s))))) =
        take (nat (batchSize s)) (queue s) \<and>
      queue (EventQueue_new url pkey bsize interval dbg
               (localStorage (storage (send_settle r2 (send_begin (send_settle r1 (send_begin s))))))
               h) =
        take (nat (batchSize s)) (queue s))"
proof -
  have keep: "storage (send_settle r s) = storage s" if "ok r"
    using that by (simp add: send_settle_def split: list.splits)
  have persisted: "retrieve (storage (step x s)) \<noteq> []" if "retrieve (storage s) \<noteq> []"
    using that by (rule storage_step_nonempty)
  have twice:
    "delivered (send_settle r2 (send_begin (send_settle r1 (send_begin s)))) =
        delivered s @ [take (nat (batchSize s)) (queue s)] \<and>
      retrieve (storage (send_settle r2 (send_begin (send_settle r1 (send_begin s))))) =
        take (nat (batchSize s)) (queue s) \<and>
      queue (EventQueue_new url pkey bsize interval dbg
               (localStorage (storage (send_settle r2 (send_begin (send_settle r1 (send_begin s))))))
               h) =
        take (nat (batchSize s)) (queue s)"
    if inv: "in_flight_ok s" and idle: "\<not> isSending s" "queue s \<noteq> []"
      and size: "1 \<le> batchSize s" "nat (batchSize s) \<le> MAX_STORED_EVENTS"
      and st: "isAvailable (storage s)" "retrieve (storage s) = []"
        "setItem (localStorage (storage s)) (take (nat (batchSize s)) (queue s)) \<noteq> None"
      and rs: "\<not> ok r1" "ok r2"
  proof -
    let ?b = "take (nat (batchSize s)) (queue s)"
    let ?s1 = "send_settle r1 (send_begin s)"
    let ?s2 = "send_settle r2 (send_begin ?s1)"
    have none: "awaiting s = []" using inv idle(1) by (simp add: in_flight_ok_def)
    have b: "?b \<noteq> []" "slice_last MAX_STORED_EVENTS ?b = ?b"
      using idle(2) size by (auto simp: slice_last_short)
    have s1: "queue ?s1 = queue s" "storage ?s1 = store (storage s) ?b" "\<not> isSending ?s1"
      "awaiting ?s1 = []" "delivered ?s1 = delivered s" "batchSize ?s1 = batchSize s"
      using idle none rs(1) by (simp_all add: send_begin_def send_settle_def Let_def)
    have s2: "delivered ?s2 = delivered s @ [?b]" "storage ?s2 = store (storage s) ?b"
      using s1 idle(2) rs(2) by (simp_all add: send_begin_def send_settle_def Let_def)
    have kept: "retrieve (store (storage s) ?b) = ?b"
      using retrieve_store [of "storage s" ?b] st b by simp
    have "usable (localStorage (storage s))"
      using st(3) by (auto simp: setItem_def split: if_splits)
    then have "retrieve (Storage_new (localStorage (store (storage s) ?b))) =
               retrieve (store (storage s) ?b)"
      using st(1) by (intro retrieve_Storage_new) (simp_all add: isAvailable_store usable_store)
    then show ?thesis
      using s2 kept by (simp add: queue_new)
  qed
  have c1: "ok r \<longrightarrow> storage (send_settle r s) = storage s"
    using keep by simp
  have c2: "storage (send_begin s) = storage s"
    by simp
  have c3: "retrieve (storage s) \<noteq> [] \<longrightarrow> retrieve (storage (step x s)) \<noteq> []"
    using persisted by simp
  show ?thesis
    by (rule conjI [OF c1 conjI [OF c2 conjI [OF c3]]], intro impI, elim conjE, rule twice)
qed

theorem delivered_events_stay_persisted_witness:
  "delivered (run [Add 1, Add 2, Settle (Resolved 500), Tick, Settle (Resolved 200)] (fresh_queue 2))
     = [[1, 2]] \<and>
   retrieve (storage (run [Add 1, Add 2, Settle (Resolved 500), Tick, Settle (Resolved 200)]
     (fresh_queue 2))) = [1, 2] \<and>
   queue (EventQueue_new ''https://zForms.xyz/api/zForms/events'' ''pk'' 2 5000 False
     (localStorage (storage (run [Add 1, Add 2, Settle (Resolved 500), Tick, Settle (Resolved 200)]
        (fresh_queue 2)))) 2) = [1, 2]"
  using delivered_events_stay_persisted [of "Resolved 200" "run [Add 1] (fresh_queue 2)" "Add 2"
      "Resolved 500" "Resolved 200" "''https://zForms.xyz/api/zForms/events''" "''pk''" 2 5000 False 2]
  by (simp add: queue_defs storage_defs in_flight_ok_def)

section \<open>Teardown\<close>

text \<open>
  Claim C3, as amended. \<open>destroy\<close> disarms the timer and calls \<open>flush\<close>: it hands nothing to
  the emergency channel and does not touch the store itself. If fewer than \<open>batchSize\<close>
  events are buffered and no send is in flight, all of them go out in one fetch; if that
  fetch succeeds they are delivered and the store is unchanged, and if it fails they are
  back in the queue and, on an available store whose write is taken, in the store.
\<close>

theorem destroy_is_flush:
  "sendTimer (destroy s) = None \<and>
   beaconed (destroy s) = beaconed s \<and>
   storage (destroy s) = storage s \<and>
   (in_flight_ok s \<and> \<not> isSending s \<and> queue s \<noteq> [] \<and>
    int (length (queue s)) < batchSize s \<longrightarrow>
      fetched (destroy s) = fetched s @ [\<lparr>project_key = projectKey s, events = queue s\<rparr>] \<and>
      queue (destroy s) = [] \<and>
      (ok r \<longrightarrow> delivered (send_settle r (destroy s)) = delivered s @ [queue s] \<and>
                storage (send_settle r (destroy s)) = storage s) \<and>
      (\<not> ok r \<longrightarrow> queue (send_settle r (destroy s)) = queue s \<and>
         (isAvailable (storage s) \<and>
          setItem (localStorage (storage s))
            (slice_last MAX_STORED_EVENTS (retrieve (storage s) @ queue s)) \<noteq> None \<longrightarrow>
            retrieve (storage (send_settle r (destroy s))) =
              slice_last MAX_STORED_EVENTS (retrieve (storage s) @ queue s))))"
  by (cases "sendTimer s")
     (auto simp: destroy_def flush_def send_begin_def send_settle_def Let_def in_flight_ok_def
        retrieve_store)

theorem destroy_is_flush_witness:
  "fetched (run [Add 1, Add 2, Destroy] (fresh_queue 10)) =
     [\<lparr>project_key = ''pk'', events = [1, 2]\<rparr>] \<and>
   sendTimer (run [Add 1, Add 2, Destroy] (fresh_queue 10)) = None \<and>
   retrieve (storage (run [Add 1, Add 2, Destroy, Settle Rejected] (fresh_queue 10))) = [1, 2] \<and>
   queue (run [Add 1, Add 2, Destroy, Settle Rejected] (fresh_queue 10)) = [1, 2]"
  using destroy_is_flush [of "run [Add 1, Add 2] (fresh_queue 10)" Rejected]
  by (simp add: queue_defs storage_defs in_flight_ok_def)

text \<open>
  Claim C3 as stated fails: \<open>destroy\<close> never uses the emergency channel. With one event
  buffered and a batch size of 10, \<open>destroy\<close> hands the event to \<open>fetch\<close> and nothing to
  \<open>sendBeacon\<close>, whose answer is never asked for; when the fetch succeeds the event is
  delivered and the store stays empty.
\<close>

theorem destroy_uses_fetch_counterexample:
  "int (length (queue (run [Add 1] (fresh_queue 10)))) < batchSize (run [Add 1] (fresh_queue 10)) \<and>
   beaconed (run [Add 1, Destroy] (fresh_queue 10)) = [] \<and>
   fetched (run [Add 1, Destroy] (fresh_queue 10)) = [\<lparr>project_key = ''pk'', events = [1]\<rparr>] \<and>
   retrieve (storage (run [Add 1, Destroy] (fresh_queue 10))) = [] \<and>
   delivered (run [Add 1, Destroy, Settle (Resolved 200)] (fresh_queue 10)) = [[1]] \<and>
   retrieve (storage (run [Add 1, Destroy, Settle (Resolved 200)] (fresh_queue 10))) = []"
  by (simp add: queue_defs storage_defs)

end
